theory Spec2Isabelle
  imports Complex_Main
begin

section \<open>Data model\<close>

text \<open>
  The program (\<^verbatim>\<open>app.py\<close>) is a script over a pandas table. A table cell is either
  missing (NaN, None, NaT), a number, a text or a timestamp. The numeric columns the
  script computes with (Year, Month, Day, Fatalities) hold whole numbers; a whole number
  keeps its value when the column is stored as floating point because of a missing
  value, so numbers are modelled as integers.
\<close>

datatype cell = Null | Num int | Str string | Date int int int

text \<open>
  A table is columnar: the row labels and, per column, its name and its cells in row
  order. A column of a well-formed table has one cell per row label, and column names
  are distinct (the CSV reader renames repeated headers).
\<close>

record dataframe =
  index :: "nat list"
  columns :: "(string \<times> cell list) list"

definition well_formed :: "dataframe \<Rightarrow> bool" where
  "well_formed df \<longleftrightarrow>
     distinct (map fst (columns df)) \<and>
     list_all (\<lambda>c. length (snd c) = length (index df)) (columns df)"

text \<open>Failures of the script are values: the exception the failing expression raises.\<close>

datatype py_error = KeyError | TypeError | ZeroDivisionError

definition bind_err :: "py_error + 'a \<Rightarrow> ('a \<Rightarrow> py_error + 'b) \<Rightarrow> py_error + 'b" where
  "bind_err r f = (case r of Inl e \<Rightarrow> Inl e | Inr x \<Rightarrow> f x)"

text \<open>\<^verbatim>\<open>len(df)\<close>, \<^verbatim>\<open>name in df.columns\<close>, \<^verbatim>\<open>df[name]\<close> and \<^verbatim>\<open>df[name] = values\<close>.\<close>

definition len :: "dataframe \<Rightarrow> nat" where
  "len df = length (index df)"

definition has_col :: "dataframe \<Rightarrow> string \<Rightarrow> bool" where
  "has_col df n \<longleftrightarrow> n \<in> set (map fst (columns df))"

definition getitem :: "dataframe \<Rightarrow> string \<Rightarrow> cell list option" where
  "getitem df n = map_of (columns df) n"

definition getitem_err :: "dataframe \<Rightarrow> string \<Rightarrow> py_error + cell list" where
  "getitem_err df n = (case getitem df n of None \<Rightarrow> Inl KeyError | Some vs \<Rightarrow> Inr vs)"

definition setitem :: "dataframe \<Rightarrow> string \<Rightarrow> cell list \<Rightarrow> dataframe" where
  "setitem df n vs =
     (if has_col df n
      then df\<lparr>columns := map (\<lambda>c. if fst c = n then (n, vs) else c) (columns df)\<rparr>
      else df\<lparr>columns := columns df @ [(n, vs)]\<rparr>)"

text \<open>
  The records of a table, in row order: the label of each row with its cell in every
  column. This is the view of the table the specification speaks about.
\<close>

definition first_cell :: "cell list \<Rightarrow> cell" where
  "first_cell vs = (case vs of [] \<Rightarrow> Null | v # _ \<Rightarrow> v)"

fun records_of :: "nat list \<Rightarrow> (string \<times> cell list) list \<Rightarrow> (nat \<times> (string \<times> cell) list) list" where
  "records_of [] cs = []"
| "records_of (l # ls) cs =
     (l, map (\<lambda>c. (fst c, first_cell (snd c))) cs) # records_of ls (map (\<lambda>c. (fst c, tl (snd c))) cs)"

definition records :: "dataframe \<Rightarrow> (nat \<times> (string \<times> cell) list) list" where
  "records df = records_of (index df) (columns df)"

definition field :: "string \<Rightarrow> nat \<times> (string \<times> cell) list \<Rightarrow> cell" where
  "field n r = (case map_of (snd r) n of None \<Rightarrow> Null | Some c \<Rightarrow> c)"

section \<open>Preprocessor\<close>

text \<open>
  \<^verbatim>\<open>pd.to_datetime(df[['Year', 'Month', 'Day']], errors='coerce')\<close> assembles one
  timestamp per row from the three columns; with \<^verbatim>\<open>errors='coerce'\<close> a row that does
  not parse gets NaT instead of an exception. The library call is modelled by its
  documented contract: the timestamp of a valid Gregorian date, NaT for everything else
  (a missing or non-numeric component included). The range limits of the library's
  timestamp type are not modelled.
\<close>

definition is_leap :: "int \<Rightarrow> bool" where
  "is_leap y \<longleftrightarrow> (y mod 4 = 0 \<and> y mod 100 \<noteq> 0) \<or> y mod 400 = 0"

definition days_in_month :: "int \<Rightarrow> int \<Rightarrow> int" where
  "days_in_month y m =
     (if m = 2 then (if is_leap y then 29 else 28)
      else if m = 4 \<or> m = 6 \<or> m = 9 \<or> m = 11 then 30 else 31)"

definition valid_date :: "int \<Rightarrow> int \<Rightarrow> int \<Rightarrow> bool" where
  "valid_date y m d \<longleftrightarrow> 1 \<le> m \<and> m \<le> 12 \<and> 1 \<le> d \<and> d \<le> days_in_month y m"

fun assemble_date :: "cell \<Rightarrow> cell \<Rightarrow> cell \<Rightarrow> cell" where
  "assemble_date (Num y) (Num m) (Num d) = (if valid_date y m d then Date y m d else Null)"
| "assemble_date _ _ _ = Null"

definition to_datetime :: "cell list \<Rightarrow> cell list \<Rightarrow> cell list \<Rightarrow> cell list" where
  "to_datetime ys ms ds = map (\<lambda>(y, m, d). assemble_date y m d) (zip ys (zip ms ds))"

text \<open>
  \<^verbatim>\<open>df.fillna(method='ffill')\<close>: every column is scanned in row order, carrying the last
  value seen that is not missing; a missing cell takes the carried value.
\<close>

fun ffill_from :: "cell \<Rightarrow> cell list \<Rightarrow> cell list" where
  "ffill_from carried [] = []"
| "ffill_from carried (v # vs) =
     (if v = Null then carried # ffill_from carried vs else v # ffill_from v vs)"

definition ffill :: "cell list \<Rightarrow> cell list" where
  "ffill vs = ffill_from Null vs"

definition fillna_ffill :: "dataframe \<Rightarrow> dataframe" where
  "fillna_ffill df = df\<lparr>columns := map (\<lambda>c. (fst c, ffill (snd c))) (columns df)\<rparr>"

text \<open>\<^verbatim>\<open>preprocess_data\<close>, lines 25 to 33. \<open>derive_date\<close> is its first statement.\<close>

definition derive_date :: "dataframe \<Rightarrow> dataframe" where
  "derive_date df =
     (case (getitem df ''Year'', getitem df ''Month'', getitem df ''Day'') of
        (Some ys, Some ms, Some ds) \<Rightarrow> setitem df ''Date'' (to_datetime ys ms ds)
      | _ \<Rightarrow> df)"

definition preprocess_data :: "dataframe \<Rightarrow> dataframe" where
  "preprocess_data df = fillna_ffill (derive_date df)"

text \<open>
  The repair as the specification words it: a cell that is not missing stays, a missing
  cell takes the nearest preceding value that is not missing, and stays missing when
  there is none.
\<close>

definition nearest_preceding :: "cell list \<Rightarrow> nat \<Rightarrow> cell" where
  "nearest_preceding vs i =
     (if vs ! i \<noteq> Null then vs ! i
      else (case filter (\<lambda>v. v \<noteq> Null) (take i vs) of [] \<Rightarrow> Null | w # ws \<Rightarrow> last (w # ws)))"

section \<open>Filter\<close>

text \<open>
  Comparing a numeric column with a number is elementwise, and false on a missing cell.
  A text or a timestamp cannot be ordered against a number: the comparison raises.
\<close>

definition numeric_series :: "cell list \<Rightarrow> bool" where
  "numeric_series vs = list_all (\<lambda>c. case c of Null \<Rightarrow> True | Num _ \<Rightarrow> True | _ \<Rightarrow> False) vs"

definition ge_series :: "cell list \<Rightarrow> int \<Rightarrow> py_error + bool list" where
  "ge_series vs a =
     (if numeric_series vs then Inr (map (\<lambda>c. case c of Num y \<Rightarrow> a \<le> y | _ \<Rightarrow> False) vs)
      else Inl TypeError)"

definition le_series :: "cell list \<Rightarrow> int \<Rightarrow> py_error + bool list" where
  "le_series vs b =
     (if numeric_series vs then Inr (map (\<lambda>c. case c of Num y \<Rightarrow> y \<le> b | _ \<Rightarrow> False) vs)
      else Inl TypeError)"

definition and_mask :: "bool list \<Rightarrow> bool list \<Rightarrow> bool list" where
  "and_mask m1 m2 = map (\<lambda>(a, b). a \<and> b) (zip m1 m2)"

text \<open>Equality with a text is elementwise and never raises; a missing cell is unequal.\<close>

definition eq_series :: "cell list \<Rightarrow> string \<Rightarrow> bool list" where
  "eq_series vs s = map (\<lambda>c. c = Str s) vs"

text \<open>\<^verbatim>\<open>df[mask]\<close>: the rows whose mask entry is true, in order, with their labels.\<close>

definition pick :: "bool list \<Rightarrow> 'a list \<Rightarrow> 'a list" where
  "pick keep xs = map snd (filter fst (zip keep xs))"

definition select :: "dataframe \<Rightarrow> bool list \<Rightarrow> dataframe" where
  "select df keep =
     \<lparr>index = pick keep (index df),
      columns = map (\<lambda>c. (fst c, pick keep (snd c))) (columns df)\<rparr>"

text \<open>
  Lines 52 to 65: the sidebar offers an operator or a location only when the table has
  the column; otherwise the selection is the sentinel. \<open>choice\<close> is what the select box
  returns.
\<close>

definition selected_operator :: "dataframe \<Rightarrow> string \<Rightarrow> string" where
  "selected_operator df choice = (if has_col df ''Operator'' then choice else ''All'')"

definition location_col :: "dataframe \<Rightarrow> string" where
  "location_col df = (if has_col df ''Country'' then ''Country'' else ''Location'')"

definition selected_location :: "dataframe \<Rightarrow> string \<Rightarrow> string" where
  "selected_location df choice =
     (if has_col df ''Country'' \<or> has_col df ''Location'' then choice else ''All'')"

text \<open>Lines 68 to 75.\<close>

definition year_mask :: "cell list \<Rightarrow> int \<times> int \<Rightarrow> py_error + bool list" where
  "year_mask ys year_range =
     bind_err (ge_series ys (fst year_range)) (\<lambda>m1.
     bind_err (le_series ys (snd year_range)) (\<lambda>m2.
     Inr (and_mask m1 m2)))"

definition filtered_df :: "dataframe \<Rightarrow> int \<times> int \<Rightarrow> string \<Rightarrow> string \<Rightarrow> py_error + dataframe" where
  "filtered_df df year_range sel_operator sel_location =
     bind_err (getitem_err df ''Year'') (\<lambda>ys.
     bind_err (year_mask ys year_range) (\<lambda>m.
     bind_err
       (if has_col df ''Operator'' \<and> sel_operator \<noteq> ''All''
        then bind_err (getitem_err (select df m) ''Operator'') (\<lambda>os.
               Inr (select (select df m) (eq_series os sel_operator)))
        else Inr (select df m)) (\<lambda>f1.
     if (has_col df ''Country'' \<or> has_col df ''Location'') \<and> sel_location \<noteq> ''All''
     then bind_err (getitem_err f1 (location_col df)) (\<lambda>ls.
            Inr (select f1 (eq_series ls sel_location)))
     else Inr f1)))"

text \<open>
  The filter as the specification words it, on one record: the year is present and
  within the inclusive bounds, and each categorical constraint is the sentinel or
  equals the record's value.
\<close>

definition satisfies :: "int \<times> int \<Rightarrow> string \<Rightarrow> string \<Rightarrow> string \<Rightarrow> nat \<times> (string \<times> cell) list \<Rightarrow> bool" where
  "satisfies year_range operator loc_col location r \<longleftrightarrow>
     (case field ''Year'' r of Num y \<Rightarrow> fst year_range \<le> y \<and> y \<le> snd year_range | _ \<Rightarrow> False) \<and>
     (operator = ''All'' \<or> field ''Operator'' r = Str operator) \<and>
     (location = ''All'' \<or> field loc_col r = Str location)"

section \<open>Aggregations\<close>

text \<open>
  \<^verbatim>\<open>Series.value_counts()\<close>: the distinct values that are not missing, each with the number
  of its occurrences, most frequent first. The library counts through a hash table that
  keeps the values in the order of their first occurrence (\<open>tally\<close>) and then sorts the
  counts in descending order. The order among equal counts is the library's and not the
  script's; the sort is modelled as stable, so that equal counts keep the order of
  first occurrence.
\<close>

fun bump :: "cell \<Rightarrow> (cell \<times> nat) list \<Rightarrow> (cell \<times> nat) list" where
  "bump v [] = [(v, 1)]"
| "bump v ((k, c) # kcs) = (if k = v then (k, Suc c) # kcs else (k, c) # bump v kcs)"

definition tally :: "cell list \<Rightarrow> (cell \<times> nat) list" where
  "tally vs = foldl (\<lambda>acc v. if v = Null then acc else bump v acc) [] vs"

definition sort_values_desc :: "('a \<times> nat) list \<Rightarrow> ('a \<times> nat) list" where
  "sort_values_desc kcs = sort_key (\<lambda>kc. - int (snd kc)) kcs"

definition value_counts :: "cell list \<Rightarrow> (cell \<times> nat) list" where
  "value_counts vs = sort_values_desc (tally vs)"

definition head :: "nat \<Rightarrow> 'a list \<Rightarrow> 'a list" where
  "head n xs = take n xs"

text \<open>
  \<^verbatim>\<open>sort_index()\<close> on counts keyed by a year or a decade: ascending by the number. Keys
  that are not numbers are not ordered among themselves here; the theorems below use
  the entries of the result, not their order.
\<close>

definition sort_index :: "(cell \<times> nat) list \<Rightarrow> (cell \<times> nat) list" where
  "sort_index kcs = sort_key (\<lambda>kc. case fst kc of Num y \<Rightarrow> y | _ \<Rightarrow> 0) kcs"

text \<open>Line 118.\<close>

definition crashes_per_year :: "dataframe \<Rightarrow> py_error + (cell \<times> nat) list" where
  "crashes_per_year view =
     bind_err (getitem_err view ''Year'') (\<lambda>ys. Inr (sort_index (value_counts ys)))"

text \<open>
  Lines 133 to 136. Floor division and the product are elementwise, keep a missing
  cell missing and raise on a text or a timestamp.
\<close>

definition decade_of :: "cell \<Rightarrow> cell" where
  "decade_of c = (case c of Num y \<Rightarrow> Num ((y div 10) * 10) | _ \<Rightarrow> Null)"

definition decade_series :: "cell list \<Rightarrow> py_error + cell list" where
  "decade_series ys = (if numeric_series ys then Inr (map decade_of ys) else Inl TypeError)"

definition with_decade :: "dataframe \<Rightarrow> py_error + dataframe" where
  "with_decade view =
     (if \<not> has_col view ''Decade''
      then bind_err (getitem_err view ''Year'') (\<lambda>ys.
           bind_err (decade_series ys) (\<lambda>ds.
           Inr (setitem view ''Decade'' ds)))
      else Inr view)"

definition crashes_by_decade :: "dataframe \<Rightarrow> py_error + (cell \<times> nat) list" where
  "crashes_by_decade view =
     bind_err (with_decade view) (\<lambda>v.
     bind_err (getitem_err v ''Decade'') (\<lambda>ds.
     Inr (sort_index (value_counts ds))))"

text \<open>
  Lines 155, 175, 237 and 249: the ranking of a column, cut to \<open>n\<close> entries. \<open>None\<close> is
  the branch that reports the column as not found.
\<close>

definition top_categories :: "dataframe \<Rightarrow> string \<Rightarrow> nat \<Rightarrow> (cell \<times> nat) list option" where
  "top_categories view col n = map_option (\<lambda>vs. head n (value_counts vs)) (getitem view col)"

definition top_operators :: "dataframe \<Rightarrow> nat \<Rightarrow> (cell \<times> nat) list option" where
  "top_operators view n =
     (if has_col view ''Operator'' then top_categories view ''Operator'' n else None)"

definition Top_locations :: "dataframe \<Rightarrow> nat \<Rightarrow> (cell \<times> nat) list option" where
  "Top_locations view n =
     (if has_col view ''Country'' \<or> has_col view ''Location''
      then top_categories view (location_col view) n else None)"

text \<open>
  Lines 86 to 106, the four metrics. Python's \<^verbatim>\<open>/\<close> raises on a zero divisor. The sum
  skips missing cells; the mean of no values is NaN (\<open>None\<close>). A column that is absent
  gives \<^verbatim>\<open>N/A\<close> (\<open>None\<close>). Quotients are exact rationals.
\<close>

definition py_truediv :: "int \<Rightarrow> int \<Rightarrow> py_error + rat" where
  "py_truediv a b = (if b = 0 then Inl ZeroDivisionError else Inr (of_int a / of_int b))"

definition years_span :: "int \<times> int \<Rightarrow> int" where
  "years_span year_range = snd year_range - fst year_range + 1"

definition avg_per_year :: "dataframe \<Rightarrow> int \<times> int \<Rightarrow> py_error + rat" where
  "avg_per_year view year_range =
     (if years_span year_range > 0 then py_truediv (int (len view)) (years_span year_range)
      else Inr 0)"

definition numbers :: "cell list \<Rightarrow> int list" where
  "numbers vs = concat (map (\<lambda>c. case c of Num v \<Rightarrow> [v] | _ \<Rightarrow> []) vs)"

definition series_sum :: "cell list \<Rightarrow> py_error + int" where
  "series_sum vs = (if numeric_series vs then Inr (sum_list (numbers vs)) else Inl TypeError)"

definition series_mean :: "cell list \<Rightarrow> py_error + rat option" where
  "series_mean vs =
     (if numeric_series vs
      then (if numbers vs = [] then Inr None
            else Inr (Some (of_int (sum_list (numbers vs)) / of_nat (length (numbers vs)))))
      else Inl TypeError)"

definition total_fatalities :: "dataframe \<Rightarrow> py_error + int option" where
  "total_fatalities view =
     (if has_col view ''Fatalities''
      then bind_err (getitem_err view ''Fatalities'') (\<lambda>vs.
           bind_err (series_sum vs) (\<lambda>s. Inr (Some s)))
      else Inr None)"

definition avg_fatalities :: "dataframe \<Rightarrow> py_error + rat option" where
  "avg_fatalities view =
     (if has_col view ''Fatalities''
      then bind_err (getitem_err view ''Fatalities'') series_mean
      else Inr None)"

text \<open>
  Lines 218 to 229. Rounding to two decimals is to the nearest hundredth, a tie going
  to the even one, on the exact quotient.
\<close>

definition nulls :: "cell list \<Rightarrow> nat" where
  "nulls vs = length (filter (\<lambda>v. v = Null) vs)"

definition isnull_sum :: "dataframe \<Rightarrow> (string \<times> nat) list" where
  "isnull_sum view = map (\<lambda>c. (fst c, nulls (snd c))) (columns view)"

definition missing_values :: "dataframe \<Rightarrow> (string \<times> nat) list" where
  "missing_values view = sort_values_desc (filter (\<lambda>kc. snd kc > 0) (isnull_sum view))"

definition round_half_even :: "rat \<Rightarrow> int" where
  "round_half_even q =
     (let f = \<lfloor>q\<rfloor>; r = q - of_int f
      in if r < 1 / 2 then f else if 1 / 2 < r then f + 1 else if even f then f else f + 1)"

definition round2 :: "rat \<Rightarrow> rat" where
  "round2 q = of_int (round_half_even (q * 100)) / 100"

definition missing_df :: "dataframe \<Rightarrow> (string \<times> nat \<times> rat) list" where
  "missing_df view =
     (if length (missing_values view) > 0
      then map (\<lambda>kc. (fst kc, snd kc, round2 (of_nat (snd kc) / of_nat (len view) * 100)))
             (missing_values view)
      else [])"

section \<open>Notions of the specification\<close>

text \<open>
  The values of a column that are not missing; the distinct values of a list in the
  order of their first occurrence; the position of the first occurrence of a value.
\<close>

definition first_seen :: "'a list \<Rightarrow> 'a list" where
  "first_seen xs = rev (remdups (rev xs))"

definition first_pos :: "cell list \<Rightarrow> cell \<Rightarrow> nat" where
  "first_pos vs k = length (takeWhile (\<lambda>v. v \<noteq> k) vs)"

definition present :: "cell list \<Rightarrow> cell list" where
  "present vs = filter (\<lambda>v. v \<noteq> Null) vs"

text \<open>
  The order of a ranking: the more frequent value first, and of two values with the same
  count the one met first in the column.
\<close>

definition ranks_before :: "cell list \<Rightarrow> cell \<times> nat \<Rightarrow> cell \<times> nat \<Rightarrow> bool" where
  "ranks_before vs a b \<longleftrightarrow>
     snd b < snd a \<or> (snd a = snd b \<and> first_pos vs (fst a) < first_pos vs (fst b))"


definition components_settled :: "dataframe \<Rightarrow> bool" where
  "components_settled df =
     (case (getitem df ''Year'', getitem df ''Month'', getitem df ''Day'') of
        (Some ys, Some ms, Some ds) \<Rightarrow> ffill ys = ys \<and> ffill ms = ms \<and> ffill ds = ds
      | _ \<Rightarrow> True)"

section \<open>Example tables\<close>

text \<open>The three records of the specification's scenario, with an operator column.\<close>

definition scenario :: dataframe where
  "scenario =
     \<lparr>index = [0, 1, 2],
      columns = [(''Year'', [Num 1990, Num 1990, Num 2005]),
                 (''Operator'', [Str ''KLM'', Null, Str ''Aeroflot'']),
                 (''Fatalities'', [Num 10, Null, Num 5])]\<rparr>"

text \<open>The scenario's view for the years 2000 to 2010.\<close>

definition scenario_2000s :: dataframe where
  "scenario_2000s =
     \<lparr>index = [2],
      columns = [(''Year'', [Num 2005]), (''Operator'', [Str ''Aeroflot'']),
                 (''Fatalities'', [Num 5])]\<rparr>"

text \<open>A column of seven operators, one of them missing, with ties.\<close>

definition ranking_example :: dataframe where
  "ranking_example =
     \<lparr>index = [0, 1, 2, 3, 4, 5, 6],
      columns = [(''Year'', [Num 1990, Num 1991, Num 1992, Num 1993, Num 1994, Num 1995, Num 1996]),
                 (''Operator'', [Str ''B'', Str ''A'', Str ''B'', Str ''C'', Null, Str ''C'', Str ''D''])]\<rparr>"

text \<open>A table that brings a Decade column of its own, missing in its first row.\<close>

definition decade_table :: dataframe where
  "decade_table =
     \<lparr>index = [0, 1],
      columns = [(''Year'', [Num 1990, Num 1995]), (''Decade'', [Null, Num 1990])]\<rparr>"


text \<open>The scenario's view for the years 1991 to 2004: no record.\<close>

definition scenario_empty :: dataframe where
  "scenario_empty =
     \<lparr>index = [],
      columns = [(''Year'', []), (''Operator'', []), (''Fatalities'', [])]\<rparr>"

text \<open>Two records, the second on the 31st of April.\<close>

definition date_example :: dataframe where
  "date_example =
     \<lparr>index = [0, 1],
      columns = [(''Year'', [Num 1990, Num 1991]), (''Month'', [Num 1, Num 4]),
                 (''Day'', [Num 15, Num 31])]\<rparr>"

text \<open>Two records, the second without a year.\<close>

definition repair_example :: dataframe where
  "repair_example =
     \<lparr>index = [0, 1],
      columns = [(''Year'', [Num 2000, Null]), (''Month'', [Num 1, Num 2]),
                 (''Day'', [Num 1, Num 1])]\<rparr>"

section \<open>Forward fill\<close>

lemma ffill_from_length: "length (ffill_from c vs) = length vs"
  by (induction vs arbitrary: c) auto

lemma ffill_from_nth:
  "i < length vs \<Longrightarrow>
   ffill_from c vs ! i =
     (if vs ! i \<noteq> Null then vs ! i
      else (case filter (\<lambda>v. v \<noteq> Null) (take i vs) of [] \<Rightarrow> c | w # ws \<Rightarrow> last (w # ws)))"
proof (induction vs arbitrary: c i)
  case Nil
  then show ?case by simp
next
  case (Cons v vs)
  show ?case
  proof (cases i)
    case 0
    then show ?thesis by simp
  next
    case (Suc j)
    with Cons.prems have j: "j < length vs" by simp
    show ?thesis using Suc Cons.IH [OF j]
      by (auto split: list.splits)
  qed
qed

lemma ffill_nth: "i < length vs \<Longrightarrow> ffill vs ! i = nearest_preceding vs i"
  by (simp add: ffill_def nearest_preceding_def ffill_from_nth)

lemma map_of_map_snd: "map_of (map (\<lambda>c. (fst c, f (snd c))) cs) n = map_option f (map_of cs n)"
  by (induction cs) auto

lemma getitem_fillna_ffill: "getitem (fillna_ffill df) n = map_option ffill (getitem df n)"
  by (simp add: getitem_def fillna_ffill_def map_of_map_snd)

lemma map_of_replace_other:
  "n \<noteq> k \<Longrightarrow> map_of (map (\<lambda>c. if fst c = k then (k, vs) else c) cs) n = map_of cs n"
  by (induction cs) auto

lemma getitem_setitem_other: "n \<noteq> k \<Longrightarrow> getitem (setitem df k vs) n = getitem df n"
  by (auto simp: getitem_def setitem_def map_of_replace_other map_add_def split: option.splits)

lemma getitem_derive_date_other: "n \<noteq> ''Date'' \<Longrightarrow> getitem (derive_date df) n = getitem df n"
  by (simp add: derive_date_def getitem_setitem_other split: option.splits)

section \<open>Row selection\<close>

lemma pick_Nil [simp]: "pick [] xs = []" "pick ks [] = []"
  by (simp_all add: pick_def)

lemma pick_Cons [simp]: "pick (k # ks) (x # xs) = (if k then x # pick ks xs else pick ks xs)"
  by (simp add: pick_def)

lemma pick_map_filter: "pick (map p xs) xs = filter p xs"
  by (induction xs) auto

lemma length_pick_cong: "length xs = length ys \<Longrightarrow> length (pick ks xs) = length (pick ks ys)"
proof (induction ks arbitrary: xs ys)
  case Nil
  then show ?case by simp
next
  case (Cons k ks)
  then show ?case by (cases xs; cases ys) auto
qed

lemma records_of_pick:
  "length ks = length ls \<Longrightarrow> list_all (\<lambda>c. length (snd c) = length ls) cs \<Longrightarrow>
   records_of (pick ks ls) (map (\<lambda>c. (fst c, pick ks (snd c))) cs) = pick ks (records_of ls cs)"
proof (induction ls arbitrary: ks cs)
  case Nil
  then show ?case by simp
next
  case (Cons l ls)
  then obtain k ks' where ks: "ks = k # ks'" and len: "length ks' = length ls"
    by (cases ks) auto
  have shape: "\<forall>c\<in>set cs. \<exists>v vs. snd c = v # vs \<and> length vs = length ls"
    using Cons.prems(2) by (auto simp: list_all_iff length_Suc_conv)
  have tls: "list_all (\<lambda>c. length (snd c) = length ls) (map (\<lambda>c. (fst c, tl (snd c))) cs)"
    using shape by (auto simp: list_all_iff)
  have heads: "map (\<lambda>c. (fst c, first_cell (snd c))) (map (\<lambda>c. (fst c, pick (True # ks') (snd c))) cs)
      = map (\<lambda>c. (fst c, first_cell (snd c))) cs"
    using shape by (auto simp: first_cell_def)
  have tails: "map (\<lambda>c. (fst c, tl (snd c))) (map (\<lambda>c. (fst c, pick (True # ks') (snd c))) cs)
      = map (\<lambda>c. (fst c, pick ks' (snd c))) (map (\<lambda>c. (fst c, tl (snd c))) cs)"
    using shape by auto
  have drop: "map (\<lambda>c. (fst c, pick (False # ks') (snd c))) cs
      = map (\<lambda>c. (fst c, pick ks' (snd c))) (map (\<lambda>c. (fst c, tl (snd c))) cs)"
    using shape by auto
  show ?case
  proof (cases k)
    case True
    have "records_of (pick ks (l # ls)) (map (\<lambda>c. (fst c, pick ks (snd c))) cs)
        = (l, map (\<lambda>c. (fst c, first_cell (snd c))) cs) #
          records_of (pick ks' ls) (map (\<lambda>c. (fst c, pick ks' (snd c))) (map (\<lambda>c. (fst c, tl (snd c))) cs))"
      unfolding ks using True by (simp only: pick_Cons if_True records_of.simps heads tails)
    then show ?thesis
      using Cons.IH [OF len tls] True by (simp only: ks pick_Cons if_True records_of.simps)
  next
    case False
    have "records_of (pick ks (l # ls)) (map (\<lambda>c. (fst c, pick ks (snd c))) cs)
        = records_of (pick ks' ls) (map (\<lambda>c. (fst c, pick ks' (snd c))) (map (\<lambda>c. (fst c, tl (snd c))) cs))"
      unfolding ks using False by (simp only: pick_Cons if_False drop)
    then show ?thesis
      using Cons.IH [OF len tls] False by (simp only: ks pick_Cons if_False records_of.simps)
  qed
qed

lemma records_select:
  "well_formed df \<Longrightarrow> length ks = len df \<Longrightarrow> records (select df ks) = pick ks (records df)"
  by (simp add: records_def select_def well_formed_def len_def records_of_pick)

lemma well_formed_select:
  assumes "well_formed df"
  shows "well_formed (select df ks)"
proof -
  have "length (pick ks (snd c)) = length (pick ks (index df))" if "c \<in> set (columns df)" for c
    using assms that by (intro length_pick_cong) (auto simp: well_formed_def list_all_iff)
  then show ?thesis
    using assms by (auto simp: well_formed_def select_def list_all_iff comp_def)
qed

lemma getitem_select: "getitem (select df ks) n = map_option (pick ks) (getitem df n)"
  by (simp add: getitem_def select_def map_of_map_snd)

lemma has_col_select: "has_col (select df ks) n = has_col df n"
  by (simp add: has_col_def select_def comp_def)

lemma names_select: "map fst (columns (select df ks)) = map fst (columns df)"
  by (simp add: select_def comp_def)

lemma has_col_getitem: "has_col df n \<longleftrightarrow> getitem df n \<noteq> None"
  by (simp add: has_col_def getitem_def map_of_eq_None_iff)

lemma field_records_of:
  "map_of cs n = Some vs \<Longrightarrow> length vs = length ls \<Longrightarrow> map (field n) (records_of ls cs) = vs"
proof (induction ls arbitrary: cs vs)
  case Nil
  then show ?case by simp
next
  case (Cons l ls)
  then obtain v vs' where vs: "vs = v # vs'" and len: "length vs' = length ls"
    by (cases vs) auto
  have t: "map_of (map (\<lambda>c. (fst c, tl (snd c))) cs) n = Some vs'"
    using Cons.prems(1) by (simp add: map_of_map_snd vs)
  have h: "map_of (map (\<lambda>c. (fst c, first_cell (snd c))) cs) n = Some v"
    using Cons.prems(1) by (simp add: map_of_map_snd vs first_cell_def)
  show ?case using Cons.IH [OF t len] h by (simp add: field_def vs)
qed

lemma column_length:
  "well_formed df \<Longrightarrow> getitem df n = Some vs \<Longrightarrow> length vs = len df"
  by (auto simp: well_formed_def getitem_def len_def list_all_iff dest: map_of_SomeD)

lemma field_records:
  "well_formed df \<Longrightarrow> getitem df n = Some vs \<Longrightarrow> map (field n) (records df) = vs"
  using column_length [of df n vs]
  by (simp add: records_def getitem_def len_def field_records_of)

lemma select_by_column:
  assumes "well_formed df" and "getitem df n = Some vs"
  shows "records (select df (map g vs)) = filter (\<lambda>r. g (field n r)) (records df)"
proof -
  have "map g vs = map g (map (field n) (records df))"
    using field_records [OF assms] by simp
  then have "map g vs = map (\<lambda>r. g (field n r)) (records df)"
    by (simp add: comp_def)
  moreover have "length (map g vs) = len df"
    using column_length [OF assms] by simp
  ultimately show ?thesis
    using records_select [OF assms(1), of "map g vs"] by (simp add: pick_map_filter)
qed

lemma and_mask_map: "and_mask (map f xs) (map g xs) = map (\<lambda>x. f x \<and> g x) xs"
  by (induction xs) (auto simp: and_mask_def)

lemma year_mask_numeric:
  "numeric_series ys \<Longrightarrow>
   year_mask ys yr =
     Inr (map (\<lambda>c. case c of Num y \<Rightarrow> fst yr \<le> y \<and> y \<le> snd yr | _ \<Rightarrow> False) ys)"
proof -
  assume "numeric_series ys"
  moreover have "(\<lambda>c. (case c of Num y \<Rightarrow> fst yr \<le> y | _ \<Rightarrow> False) \<and> (case c of Num y \<Rightarrow> y \<le> snd yr | _ \<Rightarrow> False))
      = (\<lambda>c. case c of Num y \<Rightarrow> fst yr \<le> y \<and> y \<le> snd yr | _ \<Rightarrow> False)"
    by (auto split: cell.splits)
  ultimately show ?thesis
    by (simp add: year_mask_def ge_series_def le_series_def bind_err_def and_mask_map)
qed

lemma year_mask_not_numeric: "\<not> numeric_series ys \<Longrightarrow> year_mask ys yr = Inl TypeError"
  by (simp add: year_mask_def ge_series_def bind_err_def)

lemma categorical_stage:
  assumes wf: "well_formed f"
    and col: "b \<Longrightarrow> has_col f n"
    and sentinel: "\<not> b \<Longrightarrow> s = ''All''"
  shows "\<exists>f'. (if b \<and> s \<noteq> ''All''
               then bind_err (getitem_err f n) (\<lambda>vs. Inr (select f (eq_series vs s)))
               else Inr f) = Inr f' \<and>
              well_formed f' \<and> map fst (columns f') = map fst (columns f) \<and>
              records f' = filter (\<lambda>r. s = ''All'' \<or> field n r = Str s) (records f)"
proof (cases "b \<and> s \<noteq> ''All''")
  case True
  then obtain vs where vs: "getitem f n = Some vs"
    using col by (auto simp: has_col_getitem)
  have "records (select f (eq_series vs s)) = filter (\<lambda>r. field n r = Str s) (records f)"
    unfolding eq_series_def by (rule select_by_column [OF wf vs])
  then show ?thesis
    using True vs wf
    by (simp add: getitem_err_def bind_err_def well_formed_select names_select)
next
  case False
  then have "s = ''All''" using sentinel by blast
  then show ?thesis using wf by simp
qed

section \<open>Counting values\<close>

lemma first_seen_snoc:
  "first_seen (xs @ [x]) = (if x \<in> set xs then first_seen xs else first_seen xs @ [x])"
  by (simp add: first_seen_def)

lemma first_seen_Nil [simp]: "first_seen [] = []"
  by (simp add: first_seen_def)

lemma set_first_seen [simp]: "set (first_seen xs) = set xs"
  by (simp add: first_seen_def)

lemma distinct_first_seen [simp]: "distinct (first_seen xs)"
  by (simp add: first_seen_def)

lemma length_first_seen: "length (first_seen xs) = card (set xs)"
  by (simp add: first_seen_def length_remdups_card_conv)

lemma bump_map:
  "distinct ks \<Longrightarrow>
   bump v (map (\<lambda>k. (k, g k)) ks) =
     (if v \<in> set ks then map (\<lambda>k. (k, if k = v then Suc (g k) else g k)) ks
      else map (\<lambda>k. (k, g k)) ks @ [(v, 1)])"
  by (induction ks) auto

lemma tally_snoc:
  "tally (vs @ [v]) = (if v = Null then tally vs else bump v (tally vs))"
  by (simp add: tally_def)

lemma tally_closed:
  "tally vs = map (\<lambda>k. (k, count_list vs k)) (first_seen (present vs))"
proof (induction vs rule: rev_induct)
  case Nil
  then show ?case by (simp add: tally_def present_def)
next
  case (snoc v vs)
  show ?case
  proof (cases "v = Null")
    case True
    then show ?thesis
      using snoc by (auto simp: tally_snoc present_def)
  next
    case False
    have p: "present (vs @ [v]) = present vs @ [v]"
      using False by (simp add: present_def)
    have mem: "v \<in> set (present vs) \<longleftrightarrow> v \<in> set vs"
      using False by (simp add: present_def)
    show ?thesis
    proof (cases "v \<in> set vs")
      case True
      then show ?thesis
        using False snoc mem
        by (simp add: tally_snoc p first_seen_snoc bump_map)
    next
      case False
      then have "count_list vs v = 0" by (simp add: count_list_0_iff)
      moreover have "\<forall>k\<in>set (first_seen (present vs)). k \<noteq> v"
        using False mem by auto
      ultimately show ?thesis
        using \<open>v \<noteq> Null\<close> False snoc mem
        by (auto simp: tally_snoc p first_seen_snoc bump_map)
    qed
  qed
qed

lemma sum_bump: "sum_list (map snd (bump v kcs)) = Suc (sum_list (map snd kcs))"
  by (induction kcs) auto

lemma sum_tally: "sum_list (map snd (tally vs)) = length (present vs)"
  by (induction vs rule: rev_induct) (auto simp: tally_snoc sum_bump present_def tally_def)

lemma sum_insort_key:
  "sum_list (map (g :: 'a \<Rightarrow> nat) (insort_key f x xs)) = g x + sum_list (map g xs)"
  by (induction xs) auto

lemma sum_sort_key: "sum_list (map (g :: 'a \<Rightarrow> nat) (sort_key f xs)) = sum_list (map g xs)"
  by (induction xs) (auto simp: sum_insort_key)

lemma first_pos_snoc_old: "k \<in> set vs \<Longrightarrow> first_pos (vs @ [v]) k = first_pos vs k"
  using takeWhile_append1 [of k vs "\<lambda>v. v \<noteq> k" "[v]"] by (simp add: first_pos_def)

lemma first_pos_less: "k \<in> set vs \<Longrightarrow> first_pos vs k < length vs"
  unfolding first_pos_def by (induction vs) auto

lemma first_pos_snoc_new: "k \<notin> set vs \<Longrightarrow> first_pos (vs @ [k]) k = length vs"
  unfolding first_pos_def by (induction vs) auto

lemma first_seen_order:
  "sorted_wrt (\<lambda>a b. first_pos vs a < first_pos vs b) (first_seen (present vs))"
proof (induction vs rule: rev_induct)
  case Nil
  then show ?case by (simp add: present_def)
next
  case (snoc v vs)
  have old: "sorted_wrt (\<lambda>a b. first_pos (vs @ [v]) a < first_pos (vs @ [v]) b) (first_seen (present vs))"
    by (rule sorted_wrt_mono_rel [OF _ snoc]) (auto simp: present_def first_pos_snoc_old)
  show ?case
  proof (cases "v = Null \<or> v \<in> set vs")
    case True
    then show ?thesis
      using old by (auto simp: present_def first_seen_snoc)
  next
    case False
    then have p: "first_seen (present (vs @ [v])) = first_seen (present vs) @ [v]"
      by (auto simp: present_def first_seen_snoc)
    have "first_pos (vs @ [v]) a < first_pos (vs @ [v]) v" if "a \<in> set (present vs)" for a
      using that False by (auto simp: present_def first_pos_snoc_old first_pos_snoc_new first_pos_less)
    then show ?thesis
      using old by (simp add: p sorted_wrt_append)
  qed
qed

lemma insort_key_tie_order:
  fixes f :: "'a \<Rightarrow> int"
  assumes "sorted_wrt (\<lambda>a b. f a < f b \<or> (f a = f b \<and> S a b)) ys"
    and "\<forall>y\<in>set ys. S x y"
  shows "sorted_wrt (\<lambda>a b. f a < f b \<or> (f a = f b \<and> S a b)) (insort_key f x ys)"
  using assms
proof (induction ys)
  case Nil
  then show ?case by simp
next
  case (Cons y ys)
  show ?case
  proof (cases "f x \<le> f y")
    case True
    have "f y \<le> f z" if "z \<in> set ys" for z
      using Cons.prems(1) that by auto
    then have "f x < f z \<or> (f x = f z \<and> S x z)" if "z \<in> set (y # ys)" for z
      using True Cons.prems(2) that by (cases "z = y") force+
    then show ?thesis
      using True Cons.prems(1) by simp
  next
    case False
    then show ?thesis
      using Cons by (auto simp: set_insort_key)
  qed
qed

lemma sort_key_tie_order:
  fixes f :: "'a \<Rightarrow> int"
  shows "sorted_wrt S xs \<Longrightarrow> sorted_wrt (\<lambda>a b. f a < f b \<or> (f a = f b \<and> S a b)) (sort_key f xs)"
  by (induction xs) (auto intro: insort_key_tie_order)

lemma tally_order:
  "sorted_wrt (\<lambda>a b. first_pos vs (fst a) < first_pos vs (fst b)) (tally vs)"
  using first_seen_order [of vs] by (simp add: tally_closed sorted_wrt_map)

lemma value_counts_ranked: "sorted_wrt (ranks_before vs) (value_counts vs)"
proof -
  have "sorted_wrt (\<lambda>a b. - int (snd a) < - int (snd b) \<or>
          (- int (snd a) = - int (snd b) \<and> first_pos vs (fst a) < first_pos vs (fst b)))
        (value_counts vs)"
    unfolding value_counts_def sort_values_desc_def
    by (rule sort_key_tie_order [OF tally_order])
  then show ?thesis
    by (rule sorted_wrt_mono_rel [rotated]) (auto simp: ranks_before_def)
qed

lemma set_value_counts: "set (value_counts vs) = (\<lambda>k. (k, count_list vs k)) ` set (present vs)"
  by (simp add: value_counts_def sort_values_desc_def tally_closed)

lemma length_value_counts: "length (value_counts vs) = card (set (present vs))"
  by (simp add: value_counts_def sort_values_desc_def tally_closed length_first_seen)

lemma distinct_map_sort_key: "distinct (map g (sort_key f xs)) = distinct (map g xs)"
  by (simp add: distinct_map)

lemma distinct_value_counts: "distinct (map fst (value_counts vs))"
  by (simp add: value_counts_def sort_values_desc_def distinct_map_sort_key tally_closed comp_def)

lemma sum_value_counts: "sum_list (map snd (value_counts vs)) = length (present vs)"
  by (simp add: value_counts_def sort_values_desc_def sum_sort_key sum_tally)

lemma sum_sort_index: "sum_list (map snd (sort_index kcs)) = sum_list (map snd kcs)"
  by (simp add: sort_index_def sum_sort_key)

lemma ranked_non_increasing:
  assumes "sorted_wrt (ranks_before vs) r"
  shows "sorted_wrt (\<lambda>a b. snd b \<le> snd a) r"
  using assms by (rule sorted_wrt_mono_rel [rotated]) (auto simp: ranks_before_def)

lemma count_list_pos: "x \<in> set xs \<Longrightarrow> 0 < count_list xs x"
  using count_list_0_iff [of xs x] by auto

lemma head_ranking:
  assumes "r = head n (value_counts vs)"
  shows "length r = min n (card (set (present vs)))"
    and "sorted_wrt (ranks_before vs) r"
    and "\<forall>e\<in>set r. fst e \<noteq> Null \<and> fst e \<in> set vs \<and> snd e = count_list vs (fst e) \<and> 0 < snd e"
    and "distinct (map fst r)"
    and "sum_list (map snd r) \<le> length (present vs)"
    and "\<forall>k\<in>set (present vs) - fst ` set r. \<forall>e\<in>set r. count_list vs k \<le> snd e"
proof -
  let ?all = "value_counts vs"
  have split: "?all = r @ drop n ?all" by (simp add: assms head_def)
  show "length r = min n (card (set (present vs)))"
    by (simp add: assms head_def length_value_counts min.commute)
  show "sorted_wrt (ranks_before vs) r"
    unfolding assms head_def by (rule sorted_wrt_take [OF value_counts_ranked])
  have sub: "set r \<subseteq> set ?all"
    unfolding assms head_def by (rule set_take_subset)
  show "\<forall>e\<in>set r. fst e \<noteq> Null \<and> fst e \<in> set vs \<and> snd e = count_list vs (fst e) \<and> 0 < snd e"
    using sub by (auto simp: set_value_counts present_def count_list_pos)
  show "distinct (map fst r)"
    using distinct_value_counts [of vs] by (simp add: assms head_def take_map [symmetric])
  have "sum_list (map snd ?all) = sum_list (map snd r) + sum_list (map snd (drop n ?all))"
    by (subst split) simp
  then show "sum_list (map snd r) \<le> length (present vs)"
    by (simp add: sum_value_counts)
  show "\<forall>k\<in>set (present vs) - fst ` set r. \<forall>e\<in>set r. count_list vs k \<le> snd e"
  proof (intro ballI)
    fix k e assume k: "k \<in> set (present vs) - fst ` set r" and e: "e \<in> set r"
    then have "(k, count_list vs k) \<in> set ?all" by (simp add: set_value_counts)
    then have "(k, count_list vs k) \<in> set (drop n ?all)"
      using k by (subst (asm) split) force
    moreover have "sorted_wrt (\<lambda>a b. snd b \<le> snd a) (r @ drop n ?all)"
      using ranked_non_increasing [OF value_counts_ranked [of vs]] split by simp
    ultimately show "count_list vs k \<le> snd e"
      using e by (force simp: sorted_wrt_append)
  qed
qed

section \<open>The filter\<close>

lemma filtered_df_records:
  assumes wf: "well_formed df"
    and year: "getitem df ''Year'' = Some ys"
    and num: "numeric_series ys"
  shows "\<exists>view.
     filtered_df df year_range (selected_operator df c1) (selected_location df c2) = Inr view \<and>
     well_formed view \<and> map fst (columns view) = map fst (columns df) \<and>
     records view =
       filter (satisfies year_range (selected_operator df c1) (location_col df) (selected_location df c2))
         (records df)"
proof -
  let ?op = "selected_operator df c1" and ?loc = "selected_location df c2"
  let ?in = "\<lambda>c. case c of Num y \<Rightarrow> fst year_range \<le> y \<and> y \<le> snd year_range | _ \<Rightarrow> False"
  let ?f0 = "select df (map ?in ys)"
  have wf0: "well_formed ?f0" by (rule well_formed_select [OF wf])
  have rec0: "records ?f0 = filter (\<lambda>r. ?in (field ''Year'' r)) (records df)"
    by (rule select_by_column [OF wf year])
  have names0: "map fst (columns ?f0) = map fst (columns df)" by (rule names_select)
  obtain f1 where
    st1: "(if has_col df ''Operator'' \<and> ?op \<noteq> ''All''
           then bind_err (getitem_err ?f0 ''Operator'') (\<lambda>vs. Inr (select ?f0 (eq_series vs ?op)))
           else Inr ?f0) = Inr f1"
    and wf1: "well_formed f1" and names1: "map fst (columns f1) = map fst (columns ?f0)"
    and rec1: "records f1 = filter (\<lambda>r. ?op = ''All'' \<or> field ''Operator'' r = Str ?op) (records ?f0)"
    using categorical_stage [OF wf0, of "has_col df ''Operator''" "''Operator''" ?op]
    by (auto simp: has_col_select selected_operator_def)
  have loc_col: "has_col df ''Country'' \<or> has_col df ''Location'' \<Longrightarrow> has_col f1 (location_col df)"
    using names1 names0 by (auto simp: has_col_def location_col_def)
  obtain f2 where
    st2: "(if (has_col df ''Country'' \<or> has_col df ''Location'') \<and> ?loc \<noteq> ''All''
           then bind_err (getitem_err f1 (location_col df)) (\<lambda>vs. Inr (select f1 (eq_series vs ?loc)))
           else Inr f1) = Inr f2"
    and wf2: "well_formed f2" and names2: "map fst (columns f2) = map fst (columns f1)"
    and rec2: "records f2 = filter (\<lambda>r. ?loc = ''All'' \<or> field (location_col df) r = Str ?loc) (records f1)"
    using categorical_stage [OF wf1, of "has_col df ''Country'' \<or> has_col df ''Location''" "location_col df" ?loc]
      loc_col
    by (auto simp: selected_location_def)
  have run: "filtered_df df year_range ?op ?loc = Inr f2"
    using year st1 st2
    by (simp add: filtered_df_def getitem_err_def bind_err_def year_mask_numeric [OF num])
  have "records f2 = filter (satisfies year_range ?op (location_col df) ?loc) (records df)"
    unfolding rec2 rec1 rec0 filter_filter
    by (rule filter_cong) (auto simp: satisfies_def)
  with run wf2 names2 names1 names0 show ?thesis by simp
qed

lemma scenario_well_formed: "well_formed scenario"
  by (simp add: well_formed_def scenario_def)

lemma scenario_records:
  "records scenario =
     [(0, [(''Year'', Num 1990), (''Operator'', Str ''KLM''), (''Fatalities'', Num 10)]),
      (1, [(''Year'', Num 1990), (''Operator'', Null), (''Fatalities'', Null)]),
      (2, [(''Year'', Num 2005), (''Operator'', Str ''Aeroflot''), (''Fatalities'', Num 5)])]"
  by (simp add: records_def scenario_def first_cell_def)

text \<open>
  Claim C1. On a well-formed table whose Year column is numeric, the filter does not
  fail, and the records of the filtered view are exactly the records of the table, in
  their original order and with their labels, that satisfy the conjunction of the active
  constraints: the year is present and within the inclusive bounds, the operator equals
  the selection unless the selection is the sentinel, and the value of the location
  column equals the selection unless that selection is the sentinel. A view without
  records is a result like any other.
\<close>

theorem filtered_df_exact:
  assumes wf: "well_formed df"
    and year: "getitem df ''Year'' = Some ys"
    and num: "numeric_series ys"
  shows "\<exists>view.
     filtered_df df year_range (selected_operator df c1) (selected_location df c2) = Inr view \<and>
     well_formed view \<and> map fst (columns view) = map fst (columns df) \<and>
     records view =
       filter (satisfies year_range (selected_operator df c1) (location_col df) (selected_location df c2))
         (records df)"
  by (rule filtered_df_records [OF assms])

theorem filtered_df_exact_witness:
  "\<exists>view. filtered_df scenario (2000, 2010) (selected_operator scenario ''All'')
             (selected_location scenario ''All'') = Inr view \<and>
          records view =
            [(2, [(''Year'', Num 2005), (''Operator'', Str ''Aeroflot''), (''Fatalities'', Num 5)])]"
proof -
  have y: "getitem scenario ''Year'' = Some [Num 1990, Num 1990, Num 2005]"
    by (simp add: scenario_def getitem_def)
  have n: "numeric_series [Num 1990, Num 1990, Num 2005]"
    by (simp add: numeric_series_def)
  have "filter (satisfies (2000, 2010) (selected_operator scenario ''All'') (location_col scenario)
          (selected_location scenario ''All'')) (records scenario) =
        [(2, [(''Year'', Num 2005), (''Operator'', Str ''Aeroflot''), (''Fatalities'', Num 5)])]"
    by (simp add: scenario_records satisfies_def field_def selected_operator_def
        selected_location_def)
  with filtered_df_exact [OF scenario_well_formed y n, of "(2000, 2010)" "''All''" "''All''"]
  show ?thesis by auto
qed

section \<open>The preprocessor\<close>

text \<open>
  Claim C2. The repair runs over every column of the table as it stands after the date
  derivation (the columns of the input, and the derived Date): each cell of the result
  is the nearest preceding value of its column that is not missing, the cell itself
  included, and a cell with no such value stays missing. Columns other than Date are those of the
  input, whatever they hold.
\<close>

theorem preprocess_forward_fill:
  "(n \<noteq> ''Date'' \<longrightarrow> getitem (derive_date df) n = getitem df n) \<and>
   (\<forall>vs. getitem (derive_date df) n = Some vs \<longrightarrow>
      (\<exists>ws. getitem (preprocess_data df) n = Some ws \<and> length ws = length vs \<and>
            (\<forall>i<length vs. ws ! i = nearest_preceding vs i)))"
  by (simp add: getitem_derive_date_other preprocess_data_def getitem_fillna_ffill
      ffill_def ffill_from_length ffill_nth [unfolded ffill_def])

theorem preprocess_forward_fill_witness:
  "getitem (derive_date scenario) ''Fatalities'' = Some [Num 10, Null, Num 5] \<and>
   (\<exists>ws. getitem (preprocess_data scenario) ''Fatalities'' = Some ws \<and> length ws = 3 \<and>
         ws ! 1 = Num 10)"
proof -
  have g: "getitem (derive_date scenario) ''Fatalities'' = Some [Num 10, Null, Num 5]"
    by (simp add: scenario_def derive_date_def getitem_def)
  from preprocess_forward_fill [of "''Fatalities''" scenario] g
  obtain ws where "getitem (preprocess_data scenario) ''Fatalities'' = Some ws"
    and "length ws = 3"
    and "\<forall>i<3. ws ! i = nearest_preceding [Num 10, Null, Num 5] i"
    by auto
  moreover have "nearest_preceding [Num 10, Null, Num 5] 1 = Num 10"
    by (simp add: nearest_preceding_def)
  ultimately show ?thesis using g by auto
qed

section \<open>Rankings\<close>



text \<open>
  Claim C10. A ranking of operators or of locations has no entry for the missing value;
  the count of every entry is the number of records whose value in the ranked column is
  that entry's value, so a record with a missing value adds to no count, and the counts
  together do not exceed the number of records with a value.
\<close>

theorem rankings_skip_missing:
  assumes "top_operators view n = Some r \<and> col = ''Operator'' \<or>
           Top_locations view n = Some r \<and> col = location_col view"
  shows "\<exists>vs. getitem view col = Some vs \<and>
              (\<forall>e\<in>set r. fst e \<noteq> Null \<and> snd e = count_list vs (fst e) \<and> 0 < snd e) \<and>
              sum_list (map snd r) \<le> length (present vs)"
proof -
  from assms have "top_categories view col n = Some r"
    by (auto simp: top_operators_def Top_locations_def split: if_splits)
  then obtain vs where vs: "getitem view col = Some vs" and r: "r = head n (value_counts vs)"
    by (auto simp: top_categories_def)
  show ?thesis
    using vs head_ranking(3,5) [OF r] by auto
qed

theorem rankings_skip_missing_witness:
  "top_operators ranking_example 10 =
     Some [(Str ''B'', 2), (Str ''C'', 2), (Str ''A'', 1), (Str ''D'', 1)] \<and>
   (\<exists>vs. getitem ranking_example ''Operator'' = Some vs \<and>
         sum_list (map snd [(Str ''B'', 2 :: nat), (Str ''C'', 2), (Str ''A'', 1), (Str ''D'', 1)])
           \<le> length (present vs))"
proof -
  have t: "top_operators ranking_example 10 =
      Some [(Str ''B'', 2), (Str ''C'', 2), (Str ''A'', 1), (Str ''D'', 1)]"
    by (simp add: top_operators_def top_categories_def ranking_example_def has_col_def
        getitem_def head_def value_counts_def sort_values_desc_def tally_def)
  from rankings_skip_missing [of ranking_example 10 _ "''Operator''"] t
  show ?thesis by blast
qed

section \<open>Decades\<close>

lemma filtered_view_years:
  assumes wf: "well_formed df"
    and year: "getitem df ''Year'' = Some ys"
    and num: "numeric_series ys"
    and run: "filtered_df df year_range (selected_operator df c1) (selected_location df c2) = Inr view"
  shows "well_formed view" and "map fst (columns view) = map fst (columns df)"
    and "\<exists>ys'. getitem view ''Year'' = Some ys' \<and> length ys' = len view \<and>
           (\<forall>c\<in>set ys'. \<exists>y. c = Num y \<and> fst year_range \<le> y \<and> y \<le> snd year_range)"
proof -
  from filtered_df_records [OF wf year num, of year_range c1 c2] run
  have wfv: "well_formed view" and names: "map fst (columns view) = map fst (columns df)"
    and recs: "records view =
       filter (satisfies year_range (selected_operator df c1) (location_col df) (selected_location df c2))
         (records df)"
    by auto
  show "well_formed view" by (rule wfv)
  show "map fst (columns view) = map fst (columns df)" by (rule names)
  have "has_col view ''Year'' = has_col df ''Year''"
    by (simp add: has_col_def names)
  then have "has_col view ''Year''"
    using year by (simp add: has_col_getitem)
  then obtain ys' where ys': "getitem view ''Year'' = Some ys'"
    by (auto simp: has_col_getitem)
  have m: "map (field ''Year'') (records view) = ys'"
    by (rule field_records [OF wfv ys'])
  have "\<exists>y. c = Num y \<and> fst year_range \<le> y \<and> y \<le> snd year_range" if "c \<in> set ys'" for c
  proof -
    from that m obtain r where r: "r \<in> set (records view)" and c: "c = field ''Year'' r" by auto
    from r have "satisfies year_range (selected_operator df c1) (location_col df) (selected_location df c2) r"
      unfolding recs by simp
    then have "case c of Num y \<Rightarrow> fst year_range \<le> y \<and> y \<le> snd year_range | _ \<Rightarrow> False"
      by (simp add: satisfies_def c)
    then show ?thesis by (cases c) simp_all
  qed
  then show "\<exists>ys'. getitem view ''Year'' = Some ys' \<and> length ys' = len view \<and>
           (\<forall>c\<in>set ys'. \<exists>y. c = Num y \<and> fst year_range \<le> y \<and> y \<le> snd year_range)"
    using ys' column_length [OF wfv ys'] by blast
qed

lemma getitem_setitem_new: "\<not> has_col df n \<Longrightarrow> getitem (setitem df n vs) n = Some vs"
  by (simp add: setitem_def getitem_def has_col_getitem map_add_Some_iff)

lemma well_formed_setitem_new:
  "well_formed df \<Longrightarrow> \<not> has_col df n \<Longrightarrow> length vs = len df \<Longrightarrow> well_formed (setitem df n vs)"
  by (simp add: well_formed_def setitem_def has_col_def len_def)

lemma all_num_numeric: "\<forall>c\<in>set ys. \<exists>y. c = Num y \<Longrightarrow> numeric_series ys"
  by (auto simp: numeric_series_def list_all_iff)

lemma all_num_present: "\<forall>c\<in>set ys. \<exists>y. c = Num y \<Longrightarrow> present ys = ys"
  by (induction ys) (auto simp: present_def)

lemma with_decade_new:
  assumes "\<not> has_col view ''Decade''" and "getitem view ''Year'' = Some ys" and "numeric_series ys"
  shows "with_decade view = Inr (setitem view ''Decade'' (map decade_of ys))"
  using assms
  by (simp add: with_decade_def getitem_err_def bind_err_def decade_series_def)



lemma index_setitem: "index (setitem df n vs) = index df"
  by (simp add: setitem_def)

lemma derived_decade_view:
  assumes wf: "well_formed df"
    and year: "getitem df ''Year'' = Some ys"
    and num: "numeric_series ys"
    and run: "filtered_df df year_range (selected_operator df c1) (selected_location df c2) = Inr view"
    and absent: "\<not> has_col df ''Decade''"
  shows "\<exists>v ys'. with_decade view = Inr v \<and> well_formed v \<and> index v = index view \<and>
           getitem view ''Year'' = Some ys' \<and> getitem v ''Year'' = Some ys' \<and>
           getitem v ''Decade'' = Some (map decade_of ys') \<and> length ys' = len view \<and>
           (\<forall>c\<in>set ys'. \<exists>y. c = Num y)"
proof -
  note fv = filtered_view_years [OF wf year num run]
  from fv(3) obtain ys' where ys': "getitem view ''Year'' = Some ys'" and len: "length ys' = len view"
    and nums: "\<forall>c\<in>set ys'. \<exists>y. c = Num y"
    by blast
  have abs: "\<not> has_col view ''Decade''"
    using absent by (simp add: has_col_def fv(2))
  let ?v = "setitem view ''Decade'' (map decade_of ys')"
  have "with_decade view = Inr ?v"
    by (rule with_decade_new [OF abs ys' all_num_numeric [OF nums]])
  moreover have "well_formed ?v"
    by (rule well_formed_setitem_new [OF fv(1) abs]) (simp add: len)
  moreover have "getitem ?v ''Year'' = Some ys'"
    using ys' by (simp add: getitem_setitem_other)
  moreover have "getitem ?v ''Decade'' = Some (map decade_of ys')"
    by (rule getitem_setitem_new [OF abs])
  ultimately show ?thesis
    using ys' len nums by (auto simp: index_setitem)
qed

lemma scenario_filtered:
  "filtered_df scenario (2000, 2010) (selected_operator scenario ''All'')
     (selected_location scenario ''All'') = Inr scenario_2000s"
  by (simp add: filtered_df_def scenario_def scenario_2000s_def getitem_err_def getitem_def
      bind_err_def year_mask_def ge_series_def le_series_def numeric_series_def and_mask_def
      selected_operator_def selected_location_def has_col_def select_def)

lemma scenario_year: "getitem scenario ''Year'' = Some [Num 1990, Num 1990, Num 2005]"
  by (simp add: scenario_def getitem_def)

lemma scenario_numeric: "numeric_series [Num 1990, Num 1990, Num 2005]"
  by (simp add: numeric_series_def)

lemma scenario_no_decade: "\<not> has_col scenario ''Decade''"
  by (simp add: has_col_def scenario_def)



text \<open>
  Claim C7, as the code has it. A table may bring a Decade column of its own, which
  line 133 keeps; a missing cell in it is counted under no decade, so the counts by
  decade then sum to less than the counts by year. The example table is its own
  preprocessing and its own view for the years 1990 to 1995: two records by year, one
  by decade.
\<close>

theorem decade_counts_counterexample:
  "preprocess_data decade_table = decade_table \<and>
   filtered_df decade_table (1990, 1995) (selected_operator decade_table ''All'')
     (selected_location decade_table ''All'') = Inr decade_table \<and>
   crashes_per_year decade_table = Inr [(Num 1990, 1), (Num 1995, 1)] \<and>
   crashes_by_decade decade_table = Inr [(Num 1990, 1)]"
  by (simp add: decade_table_def preprocess_data_def derive_date_def fillna_ffill_def ffill_def
      filtered_df_def getitem_err_def getitem_def
      bind_err_def year_mask_def ge_series_def le_series_def numeric_series_def and_mask_def
      selected_operator_def selected_location_def has_col_def select_def
      crashes_per_year_def crashes_by_decade_def with_decade_def sort_index_def value_counts_def
      sort_values_desc_def tally_def)

text \<open>
  Claim C7, amended. When the table has no Decade column of its own, the counts by
  decade and the counts by year of a view sum to the same number, the number of the
  view's records.
\<close>

theorem decade_counts_match_year_counts:
  assumes wf: "well_formed df"
    and year: "getitem df ''Year'' = Some ys"
    and num: "numeric_series ys"
    and run: "filtered_df df year_range (selected_operator df c1) (selected_location df c2) = Inr view"
    and absent: "\<not> has_col df ''Decade''"
  shows "\<exists>py pd. crashes_per_year view = Inr py \<and> crashes_by_decade view = Inr pd \<and>
           sum_list (map snd pd) = sum_list (map snd py) \<and> sum_list (map snd py) = len view"
proof -
  from derived_decade_view [OF assms]
  obtain v ys' where run: "with_decade view = Inr v"
    and y: "getitem view ''Year'' = Some ys'"
    and dv: "getitem v ''Decade'' = Some (map decade_of ys')"
    and len: "length ys' = len view"
    and nums: "\<forall>c\<in>set ys'. \<exists>y. c = Num y"
    by blast
  have "\<forall>c\<in>set (map decade_of ys'). \<exists>y. c = Num y"
    using nums by (auto simp: decade_of_def)
  then have pd: "present (map decade_of ys') = map decade_of ys'"
    by (rule all_num_present)
  have py: "present ys' = ys'"
    by (rule all_num_present [OF nums])
  have "crashes_per_year view = Inr (sort_index (value_counts ys'))"
    by (simp add: crashes_per_year_def getitem_err_def bind_err_def y)
  moreover have "crashes_by_decade view = Inr (sort_index (value_counts (map decade_of ys')))"
    by (simp add: crashes_by_decade_def getitem_err_def bind_err_def run dv)
  ultimately show ?thesis
    by (simp add: sum_sort_index sum_value_counts pd py len)
qed

theorem decade_counts_match_year_counts_witness:
  "\<exists>py pd. crashes_per_year scenario_2000s = Inr py \<and> crashes_by_decade scenario_2000s = Inr pd \<and>
     sum_list (map snd pd) = sum_list (map snd py) \<and> sum_list (map snd py) = 1"
  using decade_counts_match_year_counts [OF scenario_well_formed scenario_year scenario_numeric
      scenario_filtered scenario_no_decade]
  by (auto simp: scenario_2000s_def len_def)

section \<open>Date derivation\<close>


lemma map_of_replace_same:
  "n \<in> fst ` set cs \<Longrightarrow> map_of (map (\<lambda>c. if fst c = n then (n, vs) else c) cs) n = Some vs"
  by (induction cs) auto

lemma getitem_setitem_same: "getitem (setitem df n vs) n = Some vs"
proof (cases "has_col df n")
  case True
  then show ?thesis
    by (simp add: setitem_def getitem_def has_col_def map_of_replace_same)
next
  case False
  then show ?thesis by (rule getitem_setitem_new)
qed



lemma derive_date_three:
  "getitem df ''Year'' = Some ys \<Longrightarrow> getitem df ''Month'' = Some ms \<Longrightarrow>
   getitem df ''Day'' = Some ds \<Longrightarrow> derive_date df = setitem df ''Date'' (to_datetime ys ms ds)"
  by (simp add: derive_date_def)





section \<open>Preprocessing twice\<close>

lemma ffill_from_idem: "ffill_from c (ffill_from c vs) = ffill_from c vs"
  by (induction vs arbitrary: c) auto

lemma ffill_idem: "ffill (ffill vs) = ffill vs"
  by (simp add: ffill_def ffill_from_idem)

lemma fillna_ffill_idem: "fillna_ffill (fillna_ffill df) = fillna_ffill df"
  by (simp add: fillna_ffill_def ffill_idem comp_def)

lemma setitem_cells: "c \<in> set (columns (setitem df n vs)) \<Longrightarrow> fst c = n \<Longrightarrow> snd c = vs"
  by (cases c) (force simp: setitem_def has_col_def split: if_splits)

lemma has_col_setitem_same: "has_col (setitem df n vs) n"
  by (simp add: has_col_getitem getitem_setitem_same)

lemma has_col_fillna_ffill: "has_col (fillna_ffill df) n = has_col df n"
  by (simp add: has_col_def fillna_ffill_def comp_def)

lemma refill_date:
  assumes "\<forall>c\<in>set (columns df). fst c = n \<longrightarrow> snd c = vs" and "has_col df n"
  shows "fillna_ffill (setitem (fillna_ffill df) n vs) = fillna_ffill df"
proof -
  have "(if fst c = n then (n, ffill vs) else (fst c, ffill (ffill (snd c)))) = (fst c, ffill (snd c))"
    if "c \<in> set (columns df)" for c
    using assms(1) that by (auto simp: ffill_idem)
  then have "map (\<lambda>c. if fst c = n then (n, ffill vs) else (fst c, ffill (ffill (snd c)))) (columns df)
      = map (\<lambda>c. (fst c, ffill (snd c))) (columns df)"
    by (intro map_cong) auto
  moreover have "(\<lambda>c. (fst c, ffill (snd c))) \<circ> ((\<lambda>c. if fst c = n then (n, vs) else c) \<circ> (\<lambda>c. (fst c, ffill (snd c))))
      = (\<lambda>c. if fst c = n then (n, ffill vs) else (fst c, ffill (ffill (snd c))))"
    by (auto simp: fun_eq_iff)
  ultimately show ?thesis
    using assms(2) by (simp add: setitem_def has_col_fillna_ffill) (simp add: fillna_ffill_def)
qed

text \<open>
  Claim C4, as the code has it. Line 28 derives Date whenever the three columns exist,
  also when Date is there already; the second run derives it from the repaired columns.
  In the example the second record has no year: the first run dates it like the first
  record (1 January 2000), the second run composes 1 February 2000 from the year it
  inherited.
\<close>

theorem preprocess_idempotent_counterexample:
  "preprocess_data (preprocess_data repair_example) \<noteq> preprocess_data repair_example"
proof -
  have once: "getitem (preprocess_data repair_example) ''Date'' = Some [Date 2000 1 1, Date 2000 1 1]"
    by (simp add: repair_example_def preprocess_data_def derive_date_def fillna_ffill_def ffill_def
        getitem_def setitem_def has_col_def to_datetime_def valid_date_def days_in_month_def
        is_leap_def)
  have twice: "getitem (preprocess_data (preprocess_data repair_example)) ''Date'' =
      Some [Date 2000 1 1, Date 2000 2 1]"
    by (simp add: repair_example_def preprocess_data_def derive_date_def fillna_ffill_def ffill_def
        getitem_def setitem_def has_col_def to_datetime_def valid_date_def days_in_month_def
        is_leap_def)
  show ?thesis
  proof
    assume "preprocess_data (preprocess_data repair_example) = preprocess_data repair_example"
    with once twice show False by simp
  qed
qed

text \<open>
  Claim C4, amended. Preprocessing twice equals preprocessing once for every table on
  which the repair leaves the Year, Month and Day columns unchanged, or which lacks one
  of them.
\<close>

theorem preprocess_idempotent_when_settled:
  assumes "components_settled df"
  shows "preprocess_data (preprocess_data df) = preprocess_data df"
proof (cases "\<exists>ys ms ds. getitem df ''Year'' = Some ys \<and> getitem df ''Month'' = Some ms \<and>
    getitem df ''Day'' = Some ds")
  case True
  then obtain ys ms ds where y: "getitem df ''Year'' = Some ys" and m: "getitem df ''Month'' = Some ms"
    and d: "getitem df ''Day'' = Some ds"
    by blast
  from assms have st: "ffill ys = ys" "ffill ms = ms" "ffill ds = ds"
    by (simp_all add: components_settled_def y m d)
  let ?X = "to_datetime ys ms ds"
  let ?df1 = "setitem df ''Date'' ?X"
  have one: "preprocess_data df = fillna_ffill ?df1"
    by (simp add: preprocess_data_def derive_date_three [OF y m d])
  have "getitem (fillna_ffill ?df1) ''Year'' = Some ys" "getitem (fillna_ffill ?df1) ''Month'' = Some ms"
    "getitem (fillna_ffill ?df1) ''Day'' = Some ds"
    by (simp_all add: getitem_fillna_ffill getitem_setitem_other y m d st)
  then have "preprocess_data (fillna_ffill ?df1) = fillna_ffill (setitem (fillna_ffill ?df1) ''Date'' ?X)"
    by (simp add: preprocess_data_def derive_date_three)
  also have "\<dots> = fillna_ffill ?df1"
    by (rule refill_date) (auto dest: setitem_cells simp: has_col_setitem_same)
  finally show ?thesis by (simp add: one)
next
  case False
  then have a: "derive_date df = df"
    by (auto simp: derive_date_def split: option.splits)
  from False have "\<not> (\<exists>ys ms ds. getitem (fillna_ffill df) ''Year'' = Some ys \<and>
      getitem (fillna_ffill df) ''Month'' = Some ms \<and> getitem (fillna_ffill df) ''Day'' = Some ds)"
    by (auto simp: getitem_fillna_ffill)
  then have b: "derive_date (fillna_ffill df) = fillna_ffill df"
    by (auto simp: derive_date_def split: option.splits)
  show ?thesis
    by (simp add: preprocess_data_def a b fillna_ffill_idem)
qed

theorem preprocess_idempotent_when_settled_witness:
  "components_settled date_example \<and>
   preprocess_data (preprocess_data date_example) = preprocess_data date_example"
proof -
  have s: "components_settled date_example"
    by (simp add: components_settled_def date_example_def getitem_def ffill_def)
  from preprocess_idempotent_when_settled [OF s] s show ?thesis by simp
qed

section \<open>The report of missing values\<close>














section \<open>The empty view\<close>

lemma empty_columns:
  "well_formed view \<Longrightarrow> len view = 0 \<Longrightarrow> getitem view n = Some vs \<Longrightarrow> vs = []"
  using column_length [of view n vs] by simp

lemma value_counts_Nil: "value_counts [] = []"
  by (simp add: value_counts_def sort_values_desc_def tally_def)

lemma missing_df_empty:
  assumes "well_formed view" and "len view = 0"
  shows "missing_df view = []"
proof -
  have "snd c = []" if "c \<in> set (columns view)" for c
    using assms that by (auto simp: well_formed_def list_all_iff len_def)
  then have "filter (\<lambda>kc. 0 < snd kc) (isnull_sum view) = []"
    by (auto simp: isnull_sum_def filter_empty_conv nulls_def)
  then show ?thesis
    by (simp add: missing_df_def missing_values_def sort_values_desc_def)
qed

lemma scenario_filtered_empty:
  "filtered_df scenario (1991, 2004) (selected_operator scenario ''All'')
     (selected_location scenario ''All'') = Inr scenario_empty"
  by (simp add: filtered_df_def scenario_def scenario_empty_def getitem_err_def getitem_def
      bind_err_def year_mask_def ge_series_def le_series_def numeric_series_def and_mask_def
      selected_operator_def selected_location_def has_col_def select_def)

text \<open>
  Claim C5. On a view without records (the total is \<open>len view = 0\<close>) no computation of
  the dashboard fails: the average per year is 0 for every year range, the division
  being guarded and its numerator zero; the sum of fatalities is 0 and their mean is
  NaN, or both are \<^verbatim>\<open>N/A\<close> without the column; the counts by year and by decade, the
  rankings and the report of missing values are empty.
\<close>

theorem empty_view_metrics:
  assumes wf: "well_formed view" and empty: "len view = 0" and year: "has_col view ''Year''"
  shows "avg_per_year view year_range = Inr 0 \<and>
         total_fatalities view = Inr (if has_col view ''Fatalities'' then Some 0 else None) \<and>
         avg_fatalities view = Inr None \<and>
         crashes_per_year view = Inr [] \<and>
         crashes_by_decade view = Inr [] \<and>
         top_operators view n = (if has_col view ''Operator'' then Some [] else None) \<and>
         Top_locations view n =
           (if has_col view ''Country'' \<or> has_col view ''Location'' then Some [] else None) \<and>
         (\<exists>v. with_decade view = Inr v \<and> len v = 0 \<and> missing_df v = [])"
proof -
  note nil = empty_columns [OF wf empty]
  have col: "getitem view c = Some []" if "has_col view c" for c
    using that nil [of c] by (auto simp: has_col_getitem)
  have yr: "getitem view ''Year'' = Some []" by (rule col [OF year])
  have avg: "avg_per_year view year_range = Inr 0"
    by (simp add: avg_per_year_def py_truediv_def empty)
  have tot: "total_fatalities view = Inr (if has_col view ''Fatalities'' then Some 0 else None)"
    by (simp add: total_fatalities_def getitem_err_def bind_err_def col series_sum_def
        numeric_series_def numbers_def)
  have mean: "avg_fatalities view = Inr None"
    by (simp add: avg_fatalities_def getitem_err_def bind_err_def col series_mean_def
        numeric_series_def numbers_def)
  have per_year: "crashes_per_year view = Inr []"
    by (simp add: crashes_per_year_def getitem_err_def bind_err_def yr value_counts_Nil
        sort_index_def)
  have dec: "\<exists>v. with_decade view = Inr v \<and> well_formed v \<and> len v = 0 \<and>
      getitem v ''Decade'' = Some []"
  proof (cases "has_col view ''Decade''")
    case True
    then show ?thesis
      using wf empty col [OF True] by (simp add: with_decade_def)
  next
    case False
    have "with_decade view = Inr (setitem view ''Decade'' [])"
      using with_decade_new [OF False yr] by (simp add: numeric_series_def)
    moreover have "well_formed (setitem view ''Decade'' [])"
      by (rule well_formed_setitem_new [OF wf False]) (simp add: empty)
    ultimately show ?thesis
      using empty by (simp add: getitem_setitem_new [OF False] len_def index_setitem)
  qed
  then obtain v where v: "with_decade view = Inr v" "well_formed v" "len v = 0"
    "getitem v ''Decade'' = Some []"
    by blast
  have by_decade: "crashes_by_decade view = Inr []"
    by (simp add: crashes_by_decade_def getitem_err_def bind_err_def v value_counts_Nil
        sort_index_def)
  have ops: "top_operators view n = (if has_col view ''Operator'' then Some [] else None)"
    by (simp add: top_operators_def top_categories_def col value_counts_Nil head_def)
  have "has_col view (location_col view)" if "has_col view ''Country'' \<or> has_col view ''Location''"
    using that by (auto simp: location_col_def)
  then have locs: "Top_locations view n =
      (if has_col view ''Country'' \<or> has_col view ''Location'' then Some [] else None)"
    by (simp add: Top_locations_def top_categories_def col value_counts_Nil head_def)
  have "missing_df v = []"
    by (rule missing_df_empty [OF v(2,3)])
  with avg tot mean per_year by_decade ops locs v show ?thesis
    by simp
qed

theorem empty_view_metrics_witness:
  "filtered_df scenario (1991, 2004) (selected_operator scenario ''All'')
     (selected_location scenario ''All'') = Inr scenario_empty \<and>
   len scenario_empty = 0 \<and>
   avg_per_year scenario_empty (1991, 2004) = Inr 0 \<and>
   total_fatalities scenario_empty = Inr (Some 0) \<and>
   avg_fatalities scenario_empty = Inr None \<and>
   crashes_by_decade scenario_empty = Inr []"
proof -
  have wf: "well_formed scenario_empty" by (simp add: well_formed_def scenario_empty_def)
  have e: "len scenario_empty = 0" by (simp add: len_def scenario_empty_def)
  have y: "has_col scenario_empty ''Year''" by (simp add: has_col_def scenario_empty_def)
  have f: "has_col scenario_empty ''Fatalities''" by (simp add: has_col_def scenario_empty_def)
  from empty_view_metrics [OF wf e y, of "(1991, 2004)"] f e scenario_filtered_empty
  show ?thesis by simp
qed

end
